theory Spec2Isabelle
  imports Main "HOL-Library.Word"
begin

unbundle bit_operations_syntax

section \<open>Bit-accurate model of the pipelined Taylor polynomial evaluator\<close>

text \<open>
  The development embeds \<^verbatim>\<open>simulate_taylor.py\<close>. Python integers are unbounded and are
  modelled as \<^typ>\<open>int\<close>. The shift operators raise \<^verbatim>\<open>ValueError\<close> on a negative
  shift count and list indexing raises \<^verbatim>\<open>IndexError\<close> out of range; both are
  values of the model. The polynomial order is a natural number.
\<close>

subsection \<open>Errors and primitive operations\<close>

datatype py_error = ValueError | IndexError

definition bindE :: "py_error + 'a \<Rightarrow> ('a \<Rightarrow> py_error + 'b) \<Rightarrow> py_error + 'b" where
  "bindE m f = (case m of Inl e \<Rightarrow> Inl e | Inr v \<Rightarrow> f v)"

definition shl :: "int \<Rightarrow> int \<Rightarrow> py_error + int" where
  \<comment> \<open>Python \<^verbatim>\<open>a << n\<close>\<close>
  "shl a n = (if n < 0 then Inl ValueError else Inr (push_bit (nat n) a))"

definition shr :: "int \<Rightarrow> int \<Rightarrow> py_error + int" where
  \<comment> \<open>Python \<^verbatim>\<open>a >> n\<close>: an arithmetic shift, rounding towards minus infinity\<close>
  "shr a n = (if n < 0 then Inl ValueError else Inr (drop_bit (nat n) a))"

definition getitem :: "'a list \<Rightarrow> nat \<Rightarrow> py_error + 'a" where
  \<comment> \<open>Python \<^verbatim>\<open>xs[i]\<close> at a non-negative index\<close>
  "getitem xs i = (if i < length xs then Inr (xs ! i) else Inl IndexError)"

definition setitem :: "'a list \<Rightarrow> nat \<Rightarrow> 'a \<Rightarrow> py_error + 'a list" where
  \<comment> \<open>Python \<^verbatim>\<open>xs[i] = v\<close> at a non-negative index\<close>
  "setitem xs i v = (if i < length xs then Inr (xs[i := v]) else Inl IndexError)"

subsection \<open>Fixed-point helpers\<close>

definition to_signed :: "int \<Rightarrow> int \<Rightarrow> py_error + int" where
  "to_signed v bits =
     bindE (shl 1 (bits - 1)) (\<lambda>top.
       if v \<ge> top then bindE (shl 1 bits) (\<lambda>m. Inr (v - m)) else Inr v)"

definition to_unsigned :: "int \<Rightarrow> int \<Rightarrow> py_error + int" where
  "to_unsigned v bits = bindE (shl 1 bits) (\<lambda>m. Inr (v AND (m - 1)))"

definition fp_mul_trunc :: "int \<Rightarrow> int \<Rightarrow> int \<Rightarrow> int \<Rightarrow> py_error + int" where
  "fp_mul_trunc a b data_width frac_bits =
     (let product = a * b in
      bindE (shr product frac_bits) (\<lambda>shifted.
      bindE (to_unsigned shifted data_width) (\<lambda>u.
        to_signed u data_width)))"

subsection \<open>The pipeline\<close>

record TaylorPolyPipeline =
  coeffs :: "int list"
  order :: nat
  x0 :: int
  DW :: int
  FB :: int
  latency :: nat
  dx_r :: "int list"
  acc_r :: "int list"
  vld_r :: "bool list"

definition init :: "int list \<Rightarrow> nat \<Rightarrow> int \<Rightarrow> int \<Rightarrow> int \<Rightarrow> py_error + TaylorPolyPipeline" where
  \<comment> \<open>\<^verbatim>\<open>TaylorPolyPipeline.__init__\<close>: it has no check and no statement that can raise\<close>
  "init cs n x data_width frac_bits =
     Inr \<lparr> coeffs = cs, order = n, x0 = x, DW = data_width, FB = frac_bits,
           latency = n + 1,
           dx_r = replicate (n + 1) 0,
           acc_r = replicate (n + 1) 0,
           vld_r = replicate (n + 1) False \<rparr>"

definition reset :: "TaylorPolyPipeline \<Rightarrow> TaylorPolyPipeline" where
  "reset s = s \<lparr> dx_r := replicate (order s + 1) 0,
                 acc_r := replicate (order s + 1) 0,
                 vld_r := replicate (order s + 1) False \<rparr>"

type_synonym next_regs = "int list \<times> int list \<times> bool list"

definition clock_stage :: "TaylorPolyPipeline \<Rightarrow> nat \<Rightarrow> next_regs \<Rightarrow> py_error + next_regs" where
  \<comment> \<open>the body of the loop over the stages \<^verbatim>\<open>i = 1 .. N\<close>: it reads the registers
      of the state only and writes the next-value lists\<close>
  "clock_stage s i nxt =
     (case nxt of (dx_next, acc_next, vld_next) \<Rightarrow>
      bindE (getitem (dx_r s) (i - 1)) (\<lambda>dxp.
      bindE (getitem (acc_r s) (i - 1)) (\<lambda>accp.
      bindE (fp_mul_trunc dxp accp (DW s) (FB s)) (\<lambda>prod_trunc.
      bindE (getitem (coeffs s) (order s - i)) (\<lambda>coeff_k.
      bindE (to_unsigned (coeff_k + prod_trunc) (DW s)) (\<lambda>u.
      bindE (to_signed u (DW s)) (\<lambda>acc_new.
      bindE (getitem (dx_r s) (i - 1)) (\<lambda>dxq.
      bindE (setitem dx_next i dxq) (\<lambda>dx_next'.
      bindE (setitem acc_next i acc_new) (\<lambda>acc_next'.
      bindE (getitem (vld_r s) (i - 1)) (\<lambda>vp.
      bindE (setitem vld_next i vp) (\<lambda>vld_next'.
        Inr (dx_next', acc_next', vld_next')))))))))))))"

fun clock_loop :: "TaylorPolyPipeline \<Rightarrow> nat list \<Rightarrow> next_regs \<Rightarrow> py_error + next_regs" where
  "clock_loop s [] nxt = Inr nxt"
| "clock_loop s (i # is) nxt =
     (case clock_stage s i nxt of Inl e \<Rightarrow> Inl e | Inr nxt' \<Rightarrow> clock_loop s is nxt')"

definition clock ::
  "TaylorPolyPipeline \<Rightarrow> bool \<Rightarrow> int \<Rightarrow> py_error + (TaylorPolyPipeline \<times> (bool \<times> int))" where
  \<comment> \<open>One rising clock edge. The next-value lists start as \<^verbatim>\<open>[None] * (N + 1)\<close>;
      slot 0 is assigned before the loop and the slots 1 .. N by the loop, so no
      placeholder is ever read, and the model fills them with 0 and False. An exception
      leaves the registers as they were: the commit is the last statement before
      the return.\<close>
  "clock s valid_in x_in =
     (let N = order s in
      bindE (to_unsigned (x_in - x0 s) (DW s)) (\<lambda>u.
      bindE (to_signed u (DW s)) (\<lambda>dx_next_0.
      bindE (getitem (coeffs s) N) (\<lambda>acc_next_0.
      bindE (setitem (replicate (N + 1) 0) 0 dx_next_0) (\<lambda>dx_next.
      bindE (setitem (replicate (N + 1) 0) 0 acc_next_0) (\<lambda>acc_next.
      bindE (setitem (replicate (N + 1) False) 0 valid_in) (\<lambda>vld_next.
      bindE (clock_loop s [1 ..< N + 1] (dx_next, acc_next, vld_next)) (\<lambda>nxt.
        case nxt of (dx_next', acc_next', vld_next') \<Rightarrow>
          let s' = s \<lparr> dx_r := dx_next', acc_r := acc_next', vld_r := vld_next' \<rparr> in
          bindE (getitem (vld_r s') N) (\<lambda>valid_out.
          bindE (getitem (acc_r s') N) (\<lambda>y_out.
            Inr (s', (valid_out, y_out))))))))))))"

fun run ::
  "TaylorPolyPipeline \<Rightarrow> (bool \<times> int) list \<Rightarrow> py_error + (TaylorPolyPipeline \<times> (bool \<times> int) list)" where
  \<comment> \<open>a sequence of clock calls, one per element \<^verbatim>\<open>(valid_in, x_in)\<close>, as the test
      runner issues them; the outputs are collected in call order\<close>
  "run s [] = Inr (s, [])"
| "run s (vx # ins) =
     (case clock s (fst vx) (snd vx) of
        Inl e \<Rightarrow> Inl e
      | Inr (s', out) \<Rightarrow>
          (case run s' ins of Inl e \<Rightarrow> Inl e | Inr (s'', outs) \<Rightarrow> Inr (s'', out # outs)))"

subsection \<open>The contract of the caller and closed forms of one clock edge\<close>

definition params_ok :: "TaylorPolyPipeline \<Rightarrow> bool" where
  \<comment> \<open>the construction contract, as far as \<^verbatim>\<open>clock\<close> depends on it\<close>
  "params_ok s \<longleftrightarrow> 0 < DW s \<and> 0 \<le> FB s \<and> order s < length (coeffs s)"

definition regs_ok :: "TaylorPolyPipeline \<Rightarrow> bool" where
  \<comment> \<open>the three register lists have one entry per stage, as the constructor, \<^verbatim>\<open>reset\<close>
      and \<^verbatim>\<open>clock\<close> leave them\<close>
  "regs_ok s \<longleftrightarrow> length (dx_r s) = order s + 1 \<and> length (acc_r s) = order s + 1
     \<and> length (vld_r s) = order s + 1"

definition wrapS :: "int \<Rightarrow> int \<Rightarrow> int" where
  \<comment> \<open>the value of \<^verbatim>\<open>to_signed(to_unsigned(v, bits), bits)\<close> for a positive width\<close>
  "wrapS bits v = signed_take_bit (nat (bits - 1)) v"

definition mulT :: "int \<Rightarrow> int \<Rightarrow> int \<Rightarrow> int \<Rightarrow> int" where
  \<comment> \<open>the value of \<^verbatim>\<open>fp_mul_trunc(a, b, dw, fb)\<close> for a positive width and a
      non-negative shift\<close>
  "mulT dw fb a b = wrapS dw ((a * b) div 2 ^ nat fb)"

definition next_acc :: "TaylorPolyPipeline \<Rightarrow> nat \<Rightarrow> int" where
  "next_acc s i = wrapS (DW s) (coeffs s ! (order s - i)
                     + mulT (DW s) (FB s) (dx_r s ! (i - 1)) (acc_r s ! (i - 1)))"

definition step :: "TaylorPolyPipeline \<Rightarrow> bool \<Rightarrow> int \<Rightarrow> TaylorPolyPipeline" where
  \<comment> \<open>the state that \<^verbatim>\<open>clock\<close> commits when it does not raise\<close>
  "step s valid_in x_in =
     s \<lparr> dx_r := map (\<lambda>j. if j = 0 then wrapS (DW s) (x_in - x0 s) else dx_r s ! (j - 1))
                    [0 ..< order s + 1],
         acc_r := map (\<lambda>j. if j = 0 then coeffs s ! order s else next_acc s j)
                    [0 ..< order s + 1],
         vld_r := map (\<lambda>j. if j = 0 then valid_in else vld_r s ! (j - 1))
                    [0 ..< order s + 1] \<rparr>"

definition clock_output :: "TaylorPolyPipeline \<Rightarrow> bool \<times> int" where
  \<comment> \<open>what \<^verbatim>\<open>clock\<close> returns, read from the committed state\<close>
  "clock_output s = (vld_r s ! order s, acc_r s ! order s)"

fun steps :: "TaylorPolyPipeline \<Rightarrow> (bool \<times> int) list \<Rightarrow> TaylorPolyPipeline" where
  "steps s [] = s"
| "steps s (vx # ins) = steps (step s (fst vx) (snd vx)) ins"

fun outputs :: "TaylorPolyPipeline \<Rightarrow> (bool \<times> int) list \<Rightarrow> (bool \<times> int) list" where
  "outputs s [] = []"
| "outputs s (vx # ins) =
     clock_output (step s (fst vx) (snd vx)) # outputs (step s (fst vx) (snd vx)) ins"

definition in_range :: "int \<Rightarrow> int \<Rightarrow> bool" where
  \<comment> \<open>the signed range of a width of \<open>bits\<close> bits\<close>
  "in_range bits v \<longleftrightarrow> - (2 ^ nat (bits - 1)) \<le> v \<and> v \<le> 2 ^ nat (bits - 1) - 1"

definition regs_in_range :: "TaylorPolyPipeline \<Rightarrow> bool" where
  "regs_in_range s \<longleftrightarrow>
     (\<forall>v \<in> set (dx_r s). in_range (DW s) v) \<and> (\<forall>v \<in> set (acc_r s). in_range (DW s) v)"

subsection \<open>The operations as the specification words them\<close>

definition reinterpretSigned :: "int \<Rightarrow> nat \<Rightarrow> int" where
  \<comment> \<open>if the top bit (bit \<open>bits - 1\<close>) is set, subtract \<open>2 ^ bits\<close>; else unchanged\<close>
  "reinterpretSigned v bits = (if bit v (bits - 1) then v - 2 ^ bits else v)"

definition maskUnsigned :: "int \<Rightarrow> nat \<Rightarrow> int" where
  \<comment> \<open>the value bitwise-ANDed with \<open>2 ^ bits - 1\<close>\<close>
  "maskUnsigned v bits = v AND (2 ^ bits - 1)"

definition truncatingMultiply :: "int \<Rightarrow> int \<Rightarrow> nat \<Rightarrow> nat \<Rightarrow> int" where
  \<comment> \<open>the exact product, shifted right arithmetically (rounding towards minus infinity),
      masked and reinterpreted\<close>
  "truncatingMultiply a b dataWidth fracBits =
     reinterpretSigned (maskUnsigned ((a * b) div 2 ^ fracBits) dataWidth) dataWidth"

fun horner_fixed :: "TaylorPolyPipeline \<Rightarrow> int \<Rightarrow> nat \<Rightarrow> int" where
  \<comment> \<open>Horner's method in fixed point: the accumulator of stage \<open>i\<close> for the delta \<open>dx\<close>,
      starting from the coefficient of highest degree\<close>
  "horner_fixed s dx 0 = coeffs s ! order s"
| "horner_fixed s dx (Suc i) =
     wrapS (DW s) (coeffs s ! (order s - Suc i) + mulT (DW s) (FB s) dx (horner_fixed s dx i))"

section \<open>Arithmetic of the fixed-point helpers\<close>

lemma to_unsigned_take_bit: "0 \<le> bits \<Longrightarrow> to_unsigned v bits = Inr (take_bit (nat bits) v)"
  by (simp add: to_unsigned_def shl_def bindE_def take_bit_eq_mask mask_eq_exp_minus_1)

lemma signed_take_bit_mod: "signed_take_bit n (v::int) = (v + 2 ^ n) mod 2 ^ Suc n - 2 ^ n"
  by (simp add: signed_take_bit_eq_take_bit_shift take_bit_eq_mod)

lemma fold_half:
  fixes r m :: int
  assumes "0 \<le> r" "r < 2 * m"
  shows "(if m \<le> r then r - 2 * m else r) = (r + m) mod (2 * m) - m"
proof (cases "m \<le> r")
  case True
  have "(r + m) mod (2 * m) = (r + m - 2 * m) mod (2 * m)"
    by (metis minus_mod_self2)
  also have "\<dots> = r + m - 2 * m"
    using assms True by (intro mod_pos_pos_trivial) linarith+
  finally show ?thesis using True by simp
next
  case False
  then have "(r + m) mod (2 * m) = r + m"
    using assms by (intro mod_pos_pos_trivial) linarith+
  with False show ?thesis by simp
qed

lemma to_signed_take_bit:
  assumes "0 < bits"
  shows "to_signed (take_bit (nat bits) v) bits = Inr (wrapS bits v)"
proof -
  define n where "n = nat (bits - 1)"
  have nb: "nat bits = Suc n" and nb': "nat (bits - 1) = n" using assms by (simp_all add: n_def)
  define r where "r = v mod 2 ^ Suc n"
  have r: "0 \<le> r" "r < 2 * 2 ^ n" by (simp_all add: r_def)
  have "(v + 2 ^ n) mod 2 ^ Suc n = (r + 2 ^ n) mod (2 * 2 ^ n)"
    by (simp add: r_def mod_add_left_eq)
  then have "signed_take_bit n v = (if 2 ^ n \<le> r then r - 2 * 2 ^ n else r)"
    using fold_half [OF r] by (simp only: signed_take_bit_mod power_Suc)
  moreover have "to_signed r bits = Inr (if 2 ^ n \<le> r then r - 2 * 2 ^ n else r)"
    using assms by (simp add: to_signed_def shl_def bindE_def nb nb')
  ultimately show ?thesis
    by (simp only: take_bit_eq_mod nb nb' r_def wrapS_def)
qed

lemma wrap_ok:
  "0 < bits \<Longrightarrow> bindE (to_unsigned v bits) (\<lambda>u. to_signed u bits) = Inr (wrapS bits v)"
  by (simp add: to_unsigned_take_bit to_signed_take_bit bindE_def)

lemma fp_mul_trunc_ok:
  "0 < dw \<Longrightarrow> 0 \<le> fb \<Longrightarrow> fp_mul_trunc a b dw fb = Inr (mulT dw fb a b)"
  by (simp add: fp_mul_trunc_def shr_def bindE_def to_unsigned_take_bit to_signed_take_bit
      mulT_def drop_bit_eq_div)

lemma wrapS_in_range: "0 < bits \<Longrightarrow> in_range bits (wrapS bits v)"
proof -
  assume "0 < bits"
  have "- (2 ^ nat (bits - 1)) \<le> signed_take_bit (nat (bits - 1)) v"
    by (rule signed_take_bit_int_greater_eq_minus_exp)
  moreover have "signed_take_bit (nat (bits - 1)) v < 2 ^ nat (bits - 1)"
    by (rule signed_take_bit_int_less_exp)
  ultimately show ?thesis by (simp add: in_range_def wrapS_def)
qed

lemma wrapS_mod:
  "0 < bits \<Longrightarrow> wrapS bits v = (v + 2 ^ nat (bits - 1)) mod 2 ^ nat bits - 2 ^ nat (bits - 1)"
proof -
  assume "0 < bits"
  then have "nat bits = Suc (nat (bits - 1))" by simp
  then show ?thesis by (simp only: wrapS_def signed_take_bit_mod)
qed

section \<open>One clock edge in closed form\<close>

lemma clock_stage_ok:
  assumes "params_ok s" "regs_ok s" "1 \<le> i" "i \<le> order s"
    and "length dxn = order s + 1" "length accn = order s + 1" "length vldn = order s + 1"
  shows "clock_stage s i (dxn, accn, vldn) =
           Inr (dxn[i := dx_r s ! (i - 1)], accn[i := next_acc s i], vldn[i := vld_r s ! (i - 1)])"
  using assms
  by (auto simp add: clock_stage_def getitem_def setitem_def fp_mul_trunc_ok
        to_unsigned_take_bit to_signed_take_bit bindE_def
        params_ok_def regs_ok_def next_acc_def)

lemma clock_loop_ok:
  assumes "params_ok s" "regs_ok s"
  shows "\<forall>i\<in>set is. 1 \<le> i \<and> i \<le> order s \<Longrightarrow>
     length dxn = order s + 1 \<Longrightarrow> length accn = order s + 1 \<Longrightarrow> length vldn = order s + 1 \<Longrightarrow>
     \<exists>dxn' accn' vldn'. clock_loop s is (dxn, accn, vldn) = Inr (dxn', accn', vldn')
       \<and> length dxn' = order s + 1 \<and> length accn' = order s + 1 \<and> length vldn' = order s + 1
       \<and> (\<forall>j \<le> order s. dxn' ! j = (if j \<in> set is then dx_r s ! (j - 1) else dxn ! j))
       \<and> (\<forall>j \<le> order s. accn' ! j = (if j \<in> set is then next_acc s j else accn ! j))
       \<and> (\<forall>j \<le> order s. vldn' ! j = (if j \<in> set is then vld_r s ! (j - 1) else vldn ! j))"
proof (induction "is" arbitrary: dxn accn vldn)
  case Nil
  then show ?case by simp
next
  case (Cons i "is")
  let ?d = "dxn[i := dx_r s ! (i - 1)]" and ?a = "accn[i := next_acc s i]"
    and ?v = "vldn[i := vld_r s ! (i - 1)]"
  have i: "1 \<le> i" "i \<le> order s" using Cons.prems(1) by simp_all
  have st: "clock_stage s i (dxn, accn, vldn) = Inr (?d, ?a, ?v)"
    using clock_stage_ok [OF assms i Cons.prems(2,3,4)] .
  have "\<forall>i\<in>set is. 1 \<le> i \<and> i \<le> order s" using Cons.prems(1) by simp
  from Cons.IH [OF this, of ?d ?a ?v] Cons.prems(2,3,4)
  obtain dxn' accn' vldn' where
    r: "clock_loop s is (?d, ?a, ?v) = Inr (dxn', accn', vldn')"
    and l: "length dxn' = order s + 1" "length accn' = order s + 1" "length vldn' = order s + 1"
    and d: "\<forall>j \<le> order s. dxn' ! j = (if j \<in> set is then dx_r s ! (j - 1) else ?d ! j)"
    and a: "\<forall>j \<le> order s. accn' ! j = (if j \<in> set is then next_acc s j else ?a ! j)"
    and v: "\<forall>j \<le> order s. vldn' ! j = (if j \<in> set is then vld_r s ! (j - 1) else ?v ! j)"
    by auto
  have "clock_loop s (i # is) (dxn, accn, vldn) = Inr (dxn', accn', vldn')"
    using st r by simp
  moreover have "\<forall>j \<le> order s. dxn' ! j = (if j \<in> set (i # is) then dx_r s ! (j - 1) else dxn ! j)"
    using d Cons.prems(2) by (auto simp: nth_list_update)
  moreover have "\<forall>j \<le> order s. accn' ! j = (if j \<in> set (i # is) then next_acc s j else accn ! j)"
    using a Cons.prems(3) by (auto simp: nth_list_update)
  moreover have "\<forall>j \<le> order s. vldn' ! j = (if j \<in> set (i # is) then vld_r s ! (j - 1) else vldn ! j)"
    using v Cons.prems(4) by (auto simp: nth_list_update)
  ultimately show ?case using l by blast
qed

lemma regs_eqI:
  assumes "length xs = n + 1"
    and "\<forall>j \<le> n. xs ! j = (if j \<in> set [1 ..< n + 1] then f j else (replicate (n + 1) z)[0 := y] ! j)"
  shows "xs = map (\<lambda>j. if j = 0 then y else f j) [0 ..< n + 1]"
proof (rule nth_equalityI)
  show "length xs = length (map (\<lambda>j. if j = 0 then y else f j) [0 ..< n + 1])"
    using assms(1) by simp
next
  fix i assume "i < length xs"
  then have i: "i \<le> n" "i < n + 1" using assms(1) by simp_all
  have "map (\<lambda>j. if j = 0 then y else f j) [0 ..< n + 1] ! i = (if i = 0 then y else f i)"
    using i(2) by (simp only: nth_map_upt diff_zero add_0)
  moreover have "xs ! i = (if i = 0 then y else f i)"
    using assms(2) i by (cases "i = 0") auto
  ultimately show "xs ! i = map (\<lambda>j. if j = 0 then y else f j) [0 ..< n + 1] ! i" by simp
qed

lemma clock_ok:
  assumes p: "params_ok s" and g: "regs_ok s"
  shows "clock s valid_in x_in = Inr (step s valid_in x_in, clock_output (step s valid_in x_in))"
proof -
  let ?N = "order s"
  let ?d0 = "(replicate (?N + 1) (0::int))[0 := wrapS (DW s) (x_in - x0 s)]"
  let ?a0 = "(replicate (?N + 1) (0::int))[0 := coeffs s ! ?N]"
  let ?v0 = "(replicate (?N + 1) False)[0 := valid_in]"
  let ?t = "step s valid_in x_in"
  have rng: "\<forall>i\<in>set [1 ..< ?N + 1]. 1 \<le> i \<and> i \<le> ?N" by auto
  from clock_loop_ok [OF p g rng, of ?d0 ?a0 ?v0]
  obtain dxn accn vldn where
    r: "clock_loop s [1 ..< ?N + 1] (?d0, ?a0, ?v0) = Inr (dxn, accn, vldn)"
    and l: "length dxn = ?N + 1" "length accn = ?N + 1" "length vldn = ?N + 1"
    and d: "\<forall>j \<le> ?N. dxn ! j = (if j \<in> set [1 ..< ?N + 1] then dx_r s ! (j - 1) else ?d0 ! j)"
    and a: "\<forall>j \<le> ?N. accn ! j = (if j \<in> set [1 ..< ?N + 1] then next_acc s j else ?a0 ! j)"
    and v: "\<forall>j \<le> ?N. vldn ! j = (if j \<in> set [1 ..< ?N + 1] then vld_r s ! (j - 1) else ?v0 ! j)"
    by auto
  have dx: "dxn = dx_r ?t"
    using regs_eqI [OF l(1) d] by (simp add: step_def)
  have ac: "accn = acc_r ?t"
    using regs_eqI [OF l(2) a] by (simp add: step_def)
  have vl: "vldn = vld_r ?t"
    using regs_eqI [OF l(3) v] by (simp add: step_def)
  have st: "s \<lparr> dx_r := dx_r ?t, acc_r := acc_r ?t, vld_r := vld_r ?t \<rparr> = ?t"
    by (simp add: step_def)
  have N: "order ?t = ?N" by (simp add: step_def)
  have "clock s valid_in x_in =
          bindE (clock_loop s [1 ..< ?N + 1] (?d0, ?a0, ?v0)) (\<lambda>nxt.
            case nxt of (dx_next', acc_next', vld_next') \<Rightarrow>
              let s' = s \<lparr> dx_r := dx_next', acc_r := acc_next', vld_r := vld_next' \<rparr> in
              bindE (getitem (vld_r s') ?N) (\<lambda>valid_out.
              bindE (getitem (acc_r s') ?N) (\<lambda>y_out.
                Inr (s', (valid_out, y_out)))))"
    using p by (simp add: clock_def Let_def to_unsigned_take_bit to_signed_take_bit bindE_def
        getitem_def setitem_def params_ok_def)
  also have "\<dots> = Inr (?t, clock_output ?t)"
    unfolding r dx ac vl using l [unfolded dx ac vl]
    by (simp add: bindE_def getitem_def st Let_def clock_output_def N)
  finally show ?thesis .
qed

lemma step_fields [simp]:
  "coeffs (step s v x) = coeffs s" "order (step s v x) = order s" "x0 (step s v x) = x0 s"
  "DW (step s v x) = DW s" "FB (step s v x) = FB s" "latency (step s v x) = latency s"
  by (simp_all add: step_def)

lemma step_params_ok [simp]: "params_ok (step s v x) = params_ok s"
  by (simp add: params_ok_def)

lemma step_regs_ok [simp]: "regs_ok (step s v x)"
  by (simp add: regs_ok_def step_def)

lemma reset_fields [simp]:
  "coeffs (reset s) = coeffs s" "order (reset s) = order s" "x0 (reset s) = x0 s"
  "DW (reset s) = DW s" "FB (reset s) = FB s" "latency (reset s) = latency s"
  by (simp_all add: reset_def)

lemma reset_params_ok [simp]: "params_ok (reset s) = params_ok s"
  by (simp add: params_ok_def)

lemma reset_regs_ok [simp]: "regs_ok (reset s)"
  by (simp add: regs_ok_def reset_def)

lemma run_ok:
  "params_ok s \<Longrightarrow> regs_ok s \<Longrightarrow> run s ins = Inr (steps s ins, outputs s ins)"
  by (induction ins arbitrary: s) (simp_all add: clock_ok)

lemma length_outputs [simp]: "length (outputs s ins) = length ins"
  by (induction ins arbitrary: s) simp_all

lemma steps_append: "steps s (ins @ ins') = steps (steps s ins) ins'"
  by (induction ins arbitrary: s) simp_all

lemma steps_fields [simp]:
  "coeffs (steps s ins) = coeffs s" "order (steps s ins) = order s" "x0 (steps s ins) = x0 s"
  "DW (steps s ins) = DW s" "FB (steps s ins) = FB s"
  by (induction ins arbitrary: s) simp_all

lemma outputs_nth:
  "k < length ins \<Longrightarrow> outputs s ins ! k = clock_output (steps s (take (Suc k) ins))"
proof (induction ins arbitrary: s k)
  case Nil
  then show ?case by simp
next
  case (Cons vx ins)
  then show ?case by (cases k) simp_all
qed

lemma step_nth:
  assumes "i \<le> order s"
  shows "dx_r (step s v x) ! i = (if i = 0 then wrapS (DW s) (x - x0 s) else dx_r s ! (i - 1))"
    and "acc_r (step s v x) ! i = (if i = 0 then coeffs s ! order s else next_acc s i)"
    and "vld_r (step s v x) ! i = (if i = 0 then v else vld_r s ! (i - 1))"
  using assms by (simp_all add: step_def nth_map_upt del: upt_Suc)

lemma reinterpret_mask:
  assumes "0 < n"
  shows "reinterpretSigned (maskUnsigned v n) n = signed_take_bit (n - 1) v"
proof -
  obtain m where n: "n = Suc m" using assms by (cases n) simp_all
  have mk: "maskUnsigned v (Suc m) = take_bit (Suc m) v"
    by (simp add: maskUnsigned_def take_bit_eq_mask mask_eq_exp_minus_1)
  have "bit (take_bit (Suc m) v) m = bit v m"
    by (simp add: bit_take_bit_iff)
  then show ?thesis
    unfolding n mk reinterpretSigned_def
    by (simp add: signed_take_bit_eq_take_bit_minus)
qed

lemma wrapS_spec:
  assumes "0 < bits"
  shows "wrapS bits v = reinterpretSigned (maskUnsigned v (nat bits)) (nat bits)"
proof -
  have n: "0 < nat bits" "nat bits - 1 = nat (bits - 1)" using assms by simp_all
  show ?thesis
    by (simp only: wrapS_def reinterpret_mask [OF n(1)] n(2))
qed

lemma mulT_spec:
  "0 < dw \<Longrightarrow> mulT dw fb a b = truncatingMultiply a b (nat dw) (nat fb)"
  by (simp only: mulT_def truncatingMultiply_def wrapS_spec)

lemma reinterpret_mask_32: "reinterpretSigned (maskUnsigned v 32) 32 = signed_take_bit 31 v"
  using reinterpret_mask [of 32 v] by simp

section \<open>The truncating multiply\<close>

text \<open>
  Claim C2. For a positive data width and a non-negative number of fractional bits,
  \<^verbatim>\<open>fp_mul_trunc\<close> returns (it does not raise) the value the specification words as
  \<open>reinterpretSigned (maskUnsigned ((a * b) >> fracBits, dataWidth), dataWidth)\<close>, where
  the product is exact and the shift is the floor division by \<open>2 ^ fracBits\<close>. That value
  is the floor quotient reduced modulo \<open>2 ^ dataWidth\<close> into the signed range: nothing is
  rounded and nothing is clamped. The statement holds for all integers \<open>a\<close> and \<open>b\<close>, so
  in particular for those representable in \<open>dataWidth\<close> bits.
\<close>

theorem C2_fp_mul_trunc_exact:
  assumes "0 < dw" and "0 \<le> fb"
  shows "fp_mul_trunc a b dw fb = Inr (truncatingMultiply a b (nat dw) (nat fb))
     \<and> truncatingMultiply a b (nat dw) (nat fb)
         = ((a * b) div 2 ^ nat fb + 2 ^ nat (dw - 1)) mod 2 ^ nat dw - 2 ^ nat (dw - 1)"
proof -
  have n: "0 < nat dw" "nat dw - Suc 0 = nat (dw - 1)" using assms(1) by simp_all
  have "truncatingMultiply a b (nat dw) (nat fb) = mulT dw fb a b"
    by (simp add: truncatingMultiply_def reinterpret_mask [OF n(1)] n(2) mulT_def wrapS_def)
  then show ?thesis
    using assms by (simp add: fp_mul_trunc_ok mulT_def wrapS_mod)
qed

text \<open>
  At width 8 with one fractional bit, \<open>-3 * 1\<close> shifted right by one is \<open>-2\<close>: the floor
  of \<open>-1.5\<close>, not the rounded or zero-truncated \<open>-1\<close>.
\<close>

theorem C2_fp_mul_trunc_exact_witness:
  "(0::int) < 8 \<and> (0::int) \<le> 1
   \<and> fp_mul_trunc (-3) 1 8 1 = Inr (truncatingMultiply (-3) 1 (nat 8) (nat 1))
   \<and> truncatingMultiply (-3) 1 (nat 8) (nat 1) = -2"
  using C2_fp_mul_trunc_exact [of 8 1 "-3" 1] by simp

section \<open>The evaluator of order zero\<close>

text \<open>
  Claim C8. The constructor gives an evaluator of order 0 the latency 1. From any
  state of an evaluator of order 0 with a positive data width and a non-empty
  coefficient list, whatever its registers hold, \<^verbatim>\<open>clock(True, x_in)\<close> returns
  \<open>(True, coeffs[0])\<close> for every \<open>x_in\<close>. The number of fractional bits is not constrained:
  no multiply is evaluated.
\<close>

theorem C8_order_zero:
  "(\<exists>t. init cs 0 x dw fb = Inr t \<and> order t = 0 \<and> latency t = 1)
   \<and> (order s = 0 \<and> 0 < DW s \<and> coeffs s \<noteq> [] \<longrightarrow>
        (\<exists>s'. clock s True x_in = Inr (s', (True, coeffs s ! 0))))"
proof -
  have "\<exists>s'. clock s True x_in = Inr (s', (True, coeffs s ! 0))"
    if "order s = 0" "0 < DW s" "coeffs s \<noteq> []"
    using that
    by (simp add: clock_def Let_def to_unsigned_take_bit to_signed_take_bit bindE_def
        getitem_def setitem_def)
  then show ?thesis by (simp add: init_def)
qed

theorem C8_order_zero_witness:
  "order \<lparr> coeffs = [7], order = 0, x0 = 0, DW = 32, FB = 16, latency = 1,
           dx_r = [5], acc_r = [9], vld_r = [False] \<rparr> = 0
   \<and> 0 < DW \<lparr> coeffs = [7], order = 0, x0 = 0, DW = 32, FB = 16, latency = 1,
               dx_r = [5], acc_r = [9], vld_r = [False] \<rparr>
   \<and> coeffs \<lparr> coeffs = [7], order = 0, x0 = 0, DW = 32, FB = 16, latency = 1,
               dx_r = [5], acc_r = [9], vld_r = [False] \<rparr> \<noteq> []
   \<and> (\<exists>s'. clock \<lparr> coeffs = [7], order = 0, x0 = 0, DW = 32, FB = 16, latency = 1,
                    dx_r = [5], acc_r = [9], vld_r = [False] \<rparr> True 12345
             = Inr (s', (True, 7)))"
  using C8_order_zero [of "[7]" 0 32 16
      "\<lparr> coeffs = [7], order = 0, x0 = 0, DW = 32, FB = 16, latency = 1,
         dx_r = [5], acc_r = [9], vld_r = [False] \<rparr>" 12345]
  by simp

section \<open>One call of clock\<close>

text \<open>
  Claim C1. For an evaluator that meets the construction contract and whose register
  lists have \<open>order + 1\<close> entries, every call \<^verbatim>\<open>clock(valid_in, x_in)\<close> returns, and
  the committed state \<open>s'\<close> is as follows, in the operations as the specification words
  them. Stage 0 holds \<open>dx = reinterpretSigned (maskUnsigned (x_in - x0, DW), DW)\<close>,
  \<open>acc = coeffs[N]\<close> and \<open>valid = valid_in\<close>. Every stage \<open>i\<close> from 1 to \<open>N\<close> holds the
  values computed from the registers of stage \<open>i - 1\<close> before the call:
  \<open>dx[i] = dx[i-1]\<close>, \<open>valid[i] = valid[i-1]\<close> and \<open>acc[i] = reinterpretSigned (maskUnsigned
  (coeffs[N-i] + truncatingMultiply (dx[i-1], acc[i-1], DW, FB), DW), DW)\<close>. The call
  returns \<open>(valid[N], acc[N])\<close> of the committed state, and the parameters of the
  evaluator are unchanged.
\<close>

theorem C1_clock_next_state:
  assumes "params_ok s" and "regs_ok s"
  shows "\<exists>s'. clock s valid_in x_in = Inr (s', (vld_r s' ! order s, acc_r s' ! order s))
     \<and> coeffs s' = coeffs s \<and> order s' = order s \<and> x0 s' = x0 s \<and> DW s' = DW s
     \<and> FB s' = FB s \<and> latency s' = latency s \<and> regs_ok s'
     \<and> dx_r s' ! 0 = reinterpretSigned (maskUnsigned (x_in - x0 s) (nat (DW s))) (nat (DW s))
     \<and> acc_r s' ! 0 = coeffs s ! order s
     \<and> vld_r s' ! 0 = valid_in
     \<and> (\<forall>i. 1 \<le> i \<and> i \<le> order s \<longrightarrow>
           dx_r s' ! i = dx_r s ! (i - 1)
         \<and> vld_r s' ! i = vld_r s ! (i - 1)
         \<and> acc_r s' ! i
             = reinterpretSigned
                 (maskUnsigned
                    (coeffs s ! (order s - i)
                       + truncatingMultiply (dx_r s ! (i - 1)) (acc_r s ! (i - 1))
                           (nat (DW s)) (nat (FB s)))
                    (nat (DW s)))
                 (nat (DW s)))"
proof -
  let ?t = "step s valid_in x_in"
  have dw: "0 < DW s" using assms(1) by (simp add: params_ok_def)
  have ret: "clock s valid_in x_in = Inr (?t, (vld_r ?t ! order s, acc_r ?t ! order s))"
    using clock_ok [OF assms] by (simp add: clock_output_def)
  have s0: "dx_r ?t ! 0
      = reinterpretSigned (maskUnsigned (x_in - x0 s) (nat (DW s))) (nat (DW s))"
    by (simp add: step_nth wrapS_spec [OF dw])
  have a0: "acc_r ?t ! 0 = coeffs s ! order s" and v0: "vld_r ?t ! 0 = valid_in"
    by (simp_all add: step_nth)
  have si: "dx_r ?t ! i = dx_r s ! (i - 1) \<and> vld_r ?t ! i = vld_r s ! (i - 1)
         \<and> acc_r ?t ! i
             = reinterpretSigned
                 (maskUnsigned
                    (coeffs s ! (order s - i)
                       + truncatingMultiply (dx_r s ! (i - 1)) (acc_r s ! (i - 1))
                           (nat (DW s)) (nat (FB s)))
                    (nat (DW s)))
                 (nat (DW s))"
    if "1 \<le> i \<and> i \<le> order s" for i
    using that by (simp add: step_nth next_acc_def mulT_spec [OF dw] wrapS_spec [OF dw])
  show ?thesis
    using ret s0 a0 v0 si by (intro exI [of _ ?t]) simp
qed

text \<open>
  The quadratic evaluator of the demonstration with two inputs in flight, the younger
  one negative, clocked with an invalid negative input: stage 0 stores the
  reinterpreted \<open>- 196608\<close>, stage 1 the product \<open>- 2.0 * 1.0\<close> and stage 2 the product
  \<open>1.0 * 1.0\<close>, which is returned with the valid flag of the older input.
\<close>

theorem C1_clock_next_state_witness:
  "params_ok \<lparr> coeffs = [0, 0, 65536], order = 2, x0 = 0, DW = 32, FB = 16, latency = 3,
               dx_r = [- 131072, 65536, 0], acc_r = [65536, 65536, 0],
               vld_r = [True, True, False] \<rparr>
   \<and> regs_ok \<lparr> coeffs = [0, 0, 65536], order = 2, x0 = 0, DW = 32, FB = 16, latency = 3,
               dx_r = [- 131072, 65536, 0], acc_r = [65536, 65536, 0],
               vld_r = [True, True, False] \<rparr>
   \<and> (\<exists>s'. clock \<lparr> coeffs = [0, 0, 65536], order = 2, x0 = 0, DW = 32, FB = 16, latency = 3,
                    dx_r = [- 131072, 65536, 0], acc_r = [65536, 65536, 0],
                    vld_r = [True, True, False] \<rparr> False (- 196608)
              = Inr (s', (True, 65536))
        \<and> dx_r s' ! 0 = - 196608 \<and> acc_r s' ! 0 = 65536 \<and> vld_r s' ! 0 = False
        \<and> dx_r s' ! 1 = - 131072 \<and> acc_r s' ! 1 = - 131072 \<and> vld_r s' ! 1 = True
        \<and> dx_r s' ! 2 = 65536 \<and> acc_r s' ! 2 = 65536 \<and> vld_r s' ! 2 = True)"
proof -
  let ?w = "\<lparr> coeffs = [0, 0, 65536], order = 2, x0 = 0, DW = 32, FB = 16, latency = 3,
               dx_r = [- 131072, 65536, 0], acc_r = [65536, 65536, 0],
               vld_r = [True, True, False] \<rparr>"
  have p: "params_ok ?w" by (simp add: params_ok_def)
  have g: "regs_ok ?w" by (simp add: regs_ok_def)
  have m1: "truncatingMultiply (- 131072) 65536 32 16 = - 131072"
    by (simp add: truncatingMultiply_def reinterpret_mask_32)
  have m2: "truncatingMultiply 65536 65536 32 16 = 65536"
    by (simp add: truncatingMultiply_def reinterpret_mask_32)
  from C1_clock_next_state [OF p g, of False "- 196608"]
  obtain s' where c: "clock ?w False (- 196608) = Inr (s', (vld_r s' ! 2, acc_r s' ! 2))"
    and d: "dx_r s' ! 0 = reinterpretSigned (maskUnsigned (- 196608 - 0) (nat 32)) (nat 32)"
    and z: "acc_r s' ! 0 = 65536" "vld_r s' ! 0 = False"
    and a: "\<forall>i. 1 \<le> i \<and> i \<le> 2 \<longrightarrow>
           dx_r s' ! i = [- 131072, 65536, 0] ! (i - 1)
         \<and> vld_r s' ! i = [True, True, False] ! (i - 1)
         \<and> acc_r s' ! i
             = reinterpretSigned
                 (maskUnsigned
                    ([0, 0, 65536] ! (2 - i)
                       + truncatingMultiply ([- 131072, 65536, 0] ! (i - 1))
                           ([65536, 65536, 0] ! (i - 1)) (nat 32) (nat 16))
                    (nat 32))
                 (nat 32)"
    by auto
  have d0: "dx_r s' ! 0 = - 196608" using d by (simp add: reinterpret_mask_32)
  have s1: "dx_r s' ! 1 = - 131072 \<and> acc_r s' ! 1 = - 131072 \<and> vld_r s' ! 1 = True"
    using a [rule_format, of 1] m1 by (simp add: reinterpret_mask_32)
  have s2: "dx_r s' ! 2 = 65536 \<and> acc_r s' ! 2 = 65536 \<and> vld_r s' ! 2 = True"
    using a [rule_format, of 2] m2 by (simp add: reinterpret_mask_32)
  have c': "clock ?w False (- 196608) = Inr (s', (True, 65536))"
    using c s2 by simp
  show ?thesis
    using p g c' d0 z s1 s2 by (intro conjI exI [of _ s']) simp_all
qed

section \<open>Wrap-around\<close>

text \<open>
  Claim C6. In every call of \<^verbatim>\<open>clock\<close> the subtraction \<open>x_in - x0\<close> of stage 0 and
  the sum of coefficient and product of every later stage are stored reduced modulo
  \<open>2 ^ DW\<close> into the signed range \<open>- 2 ^ (DW - 1) .. 2 ^ (DW - 1) - 1\<close>: a result outside
  the range wraps around, it is not clamped to the nearest bound.
\<close>

theorem C6_wraparound:
  assumes "params_ok s" and "regs_ok s"
  shows "\<exists>s' out. clock s valid_in x_in = Inr (s', out)
     \<and> dx_r s' ! 0
         = (x_in - x0 s + 2 ^ nat (DW s - 1)) mod 2 ^ nat (DW s) - 2 ^ nat (DW s - 1)
     \<and> (\<forall>i. 1 \<le> i \<and> i \<le> order s \<longrightarrow>
           (\<exists>prod. fp_mul_trunc (dx_r s ! (i - 1)) (acc_r s ! (i - 1)) (DW s) (FB s) = Inr prod
              \<and> acc_r s' ! i
                  = (coeffs s ! (order s - i) + prod + 2 ^ nat (DW s - 1)) mod 2 ^ nat (DW s)
                      - 2 ^ nat (DW s - 1)))"
proof -
  let ?t = "step s valid_in x_in"
  have dw: "0 < DW s" and fb: "0 \<le> FB s" using assms(1) by (simp_all add: params_ok_def)
  have s0: "dx_r ?t ! 0
         = (x_in - x0 s + 2 ^ nat (DW s - 1)) mod 2 ^ nat (DW s) - 2 ^ nat (DW s - 1)"
    by (simp add: step_nth wrapS_mod [OF dw])
  have si: "\<exists>prod. fp_mul_trunc (dx_r s ! (i - 1)) (acc_r s ! (i - 1)) (DW s) (FB s) = Inr prod
              \<and> acc_r ?t ! i
                  = (coeffs s ! (order s - i) + prod + 2 ^ nat (DW s - 1)) mod 2 ^ nat (DW s)
                      - 2 ^ nat (DW s - 1)"
    if "1 \<le> i \<and> i \<le> order s" for i
    using that by (simp add: step_nth fp_mul_trunc_ok [OF dw fb] next_acc_def wrapS_mod [OF dw, symmetric])
  show ?thesis
    using clock_ok [OF assms, of valid_in x_in] s0 si by (intro exI [of _ ?t]) simp
qed

text \<open>
  At width 8, \<open>127 - (- 1) = 128\<close> is stored as \<open>- 128\<close> and \<open>100 + 100 * 1 = 200\<close> as
  \<open>- 56\<close>; saturation would give \<open>127\<close> both times.
\<close>

theorem C6_wraparound_witness:
  "params_ok \<lparr> coeffs = [100, 1], order = 1, x0 = - 1, DW = 8, FB = 0, latency = 2,
               dx_r = [100, 0], acc_r = [1, 0], vld_r = [True, False] \<rparr>
   \<and> regs_ok \<lparr> coeffs = [100, 1], order = 1, x0 = - 1, DW = 8, FB = 0, latency = 2,
               dx_r = [100, 0], acc_r = [1, 0], vld_r = [True, False] \<rparr>
   \<and> (\<exists>s' out. clock \<lparr> coeffs = [100, 1], order = 1, x0 = - 1, DW = 8, FB = 0, latency = 2,
                        dx_r = [100, 0], acc_r = [1, 0], vld_r = [True, False] \<rparr> True 127
                  = Inr (s', out)
        \<and> dx_r s' ! 0 = - 128 \<and> acc_r s' ! 1 = - 56)"
proof -
  let ?w = "\<lparr> coeffs = [100, 1], order = 1, x0 = - 1, DW = 8, FB = 0, latency = 2,
               dx_r = [100, 0], acc_r = [1, 0], vld_r = [True, False] \<rparr>"
  have p: "params_ok ?w" by (simp add: params_ok_def)
  have g: "regs_ok ?w" by (simp add: regs_ok_def)
  have m: "fp_mul_trunc 100 1 8 0 = Inr 100"
    by (simp add: fp_mul_trunc_ok mulT_def wrapS_def)
  from C6_wraparound [OF p g, of True 127]
  obtain s' out where c: "clock ?w True 127 = Inr (s', out)"
    and d: "dx_r s' ! 0 = (127 - (- 1) + 2 ^ nat (8 - 1)) mod 2 ^ nat 8 - 2 ^ nat (8 - 1)"
    and a: "\<forall>i. 1 \<le> i \<and> i \<le> 1 \<longrightarrow>
           (\<exists>prod. fp_mul_trunc ([100, 0] ! (i - 1)) ([1, 0] ! (i - 1)) 8 0 = Inr prod
              \<and> acc_r s' ! i = ([100, 1] ! (1 - i) + prod + 2 ^ nat (8 - 1)) mod 2 ^ nat 8
                      - 2 ^ nat (8 - 1))"
    by auto
  have "dx_r s' ! 0 = - 128" using d by simp
  moreover have "acc_r s' ! 1 = - 56" using a [rule_format, of 1] m by simp
  ultimately show ?thesis using p g c by blast
qed

section \<open>Runs of clock calls\<close>

lemma vld_step:
  assumes "regs_ok s"
  shows "vld_r (step s v x) = take (order s + 1) (v # vld_r s)"
proof (rule nth_equalityI)
  show "length (vld_r (step s v x)) = length (take (order s + 1) (v # vld_r s))"
    using assms by (simp add: step_def regs_ok_def)
next
  fix i assume "i < length (vld_r (step s v x))"
  then have i: "i \<le> order s" by (simp add: step_def)
  then show "vld_r (step s v x) ! i = take (order s + 1) (v # vld_r s) ! i"
    by (cases i) (simp_all add: step_nth)
qed

lemma take_append_take: "take n (xs @ take n ys) = take n (xs @ ys)"
  by (simp add: min_def)

lemma vld_steps:
  "regs_ok s \<Longrightarrow> vld_r (steps s ins) = take (order s + 1) (rev (map fst ins) @ vld_r s)"
proof (induction ins arbitrary: s)
  case Nil
  then show ?case by (simp add: regs_ok_def)
next
  case (Cons vx ins)
  have "vld_r (steps s (vx # ins))
          = take (order s + 1) (rev (map fst ins) @ take (order s + 1) (fst vx # vld_r s))"
    using Cons.IH [of "step s (fst vx) (snd vx)"] by (simp add: vld_step [OF Cons.prems])
  then show ?case by (simp only: take_append_take) simp
qed

lemma valid_out_nth:
  assumes "k < length ins"
  shows "fst (clock_output (steps (reset s) (take (Suc k) ins)))
           = (order s \<le> k \<and> fst (ins ! (k - order s)))"
proof -
  let ?vs = "rev (map fst (take (Suc k) ins))"
  have len: "length ?vs = Suc k" using assms by simp
  have "vld_r (reset s) = replicate (order s + 1) False"
    by (simp add: reset_def)
  then have "vld_r (steps (reset s) (take (Suc k) ins))
          = take (order s + 1) (?vs @ replicate (order s + 1) False)"
    using vld_steps [OF reset_regs_ok, of s "take (Suc k) ins"]
    by (simp only: reset_fields)
  moreover have "take (order s + 1) (?vs @ replicate (order s + 1) False) ! order s
          = (?vs @ replicate (order s + 1) False) ! order s"
    by (rule nth_take) simp
  moreover have "fst (clock_output (steps (reset s) (take (Suc k) ins)))
          = vld_r (steps (reset s) (take (Suc k) ins)) ! order s"
    by (simp add: clock_output_def)
  ultimately have "fst (clock_output (steps (reset s) (take (Suc k) ins)))
          = (?vs @ replicate (order s + 1) False) ! order s"
    by (simp only:)
  also have "\<dots> = (order s \<le> k \<and> fst (ins ! (k - order s)))"
  proof (cases "order s \<le> k")
    case True
    then have "(?vs @ replicate (order s + 1) False) ! order s = ?vs ! order s"
      using len by (simp add: nth_append)
    also have "\<dots> = map fst (take (Suc k) ins) ! (k - order s)"
      using True assms by (simp add: rev_nth)
    also have "\<dots> = fst (ins ! (k - order s))"
      using assms by simp
    finally show ?thesis using True by simp
  next
    case False
    then have "order s - Suc k < order s + 1" by simp
    then have "replicate (order s + 1) False ! (order s - Suc k) = False"
      by (rule nth_replicate)
    then show ?thesis using False len by (simp add: nth_append del: replicate_Suc)
  qed
  finally show ?thesis .
qed

lemma horner_fixed_cong:
  "coeffs t = coeffs s \<Longrightarrow> order t = order s \<Longrightarrow> DW t = DW s \<Longrightarrow> FB t = FB s \<Longrightarrow>
     horner_fixed t dx i = horner_fixed s dx i"
  by (induction i) simp_all

lemma stage_data:
  "i < length ins \<Longrightarrow> i \<le> order s \<Longrightarrow>
     dx_r (steps s ins) ! i = wrapS (DW s) (snd (ins ! (length ins - 1 - i)) - x0 s)
   \<and> acc_r (steps s ins) ! i
        = horner_fixed s (wrapS (DW s) (snd (ins ! (length ins - 1 - i)) - x0 s)) i"
proof (induction ins arbitrary: i rule: rev_induct)
  case Nil
  then show ?case by simp
next
  case (snoc vx ins)
  let ?t = "steps s ins"
  have st: "steps s (ins @ [vx]) = step ?t (fst vx) (snd vx)"
    by (simp add: steps_append)
  show ?case
  proof (cases i)
    case 0
    then show ?thesis by (simp add: st step_nth)
  next
    case (Suc j)
    then have j: "j < length ins" "j \<le> order s" using snoc.prems by simp_all
    have "length ins - Suc j < length ins" using j(1) by linarith
    then have idx: "(ins @ [vx]) ! (length (ins @ [vx]) - 1 - i) = ins ! (length ins - 1 - j)"
      using Suc by (simp add: nth_append)
    from snoc.IH [OF j] show ?thesis
      using snoc.prems(2) Suc unfolding idx st
      by (simp add: step_nth next_acc_def)
  qed
qed

lemma y_out_nth:
  assumes "k < length ins" and "order s \<le> k"
  shows "snd (clock_output (steps (reset s) (take (Suc k) ins)))
           = horner_fixed s (wrapS (DW s) (snd (ins ! (k - order s)) - x0 s)) (order s)"
proof -
  have len: "length (take (Suc k) ins) = Suc k" using assms(1) by simp
  have idx: "take (Suc k) ins ! (Suc k - 1 - order s) = ins ! (k - order s)"
    by simp
  have "order s < length (take (Suc k) ins)" using assms len by simp
  from stage_data [OF this, of "reset s"]
  show ?thesis
    unfolding len idx
    by (simp add: clock_output_def horner_fixed_cong [of "reset s" s])
qed

lemma init_reset:
  "init cs n x dw fb = Inr (reset \<lparr> coeffs = cs, order = n, x0 = x, DW = dw, FB = fb,
      latency = n + 1, dx_r = [], acc_r = [], vld_r = [] \<rparr>)"
  by (simp add: init_def reset_def)

section \<open>Latency\<close>

text \<open>
  Claim C3. Cycles are numbered by clock edges: the call of \<^verbatim>\<open>clock\<close> number \<open>k\<close>
  (from 0) is the rising edge that samples the input presented on cycle \<open>k\<close>, and what it
  returns are the output registers after that edge, the output on cycle \<open>k + 1\<close>. For an
  evaluator of order \<open>N\<close> that meets the construction contract and is run from the reset
  state, every call returns, and the output on cycle \<open>c\<close> is valid exactly when
  \<open>c \<ge> N + 1\<close> and the input presented on cycle \<open>c - (N + 1)\<close> was valid; its value is then
  the fixed-point Horner evaluation of that input, so the valid flag moves through the
  \<open>N + 1\<close> stages in lockstep with the data. One valid input followed by \<open>N + 1\<close> invalid
  ones gives exactly one valid output: the calls return \<open>N\<close> invalid outputs, then the
  valid one (from the call number \<open>N + 1\<close> counted from 1), then an invalid one.
\<close>

theorem C3_latency:
  assumes "params_ok s"
  shows "\<exists>s' outs. run (reset s) ins = Inr (s', outs) \<and> length outs = length ins
     \<and> (\<forall>c. 1 \<le> c \<and> c \<le> length ins \<longrightarrow>
           fst (outs ! (c - 1)) = (order s + 1 \<le> c \<and> fst (ins ! (c - (order s + 1))))
         \<and> (order s + 1 \<le> c \<longrightarrow>
              snd (outs ! (c - 1))
                = horner_fixed s (wrapS (DW s) (snd (ins ! (c - (order s + 1))) - x0 s))
                    (order s)))
     \<and> (\<forall>x xs. ins = (True, x) # map (Pair False) xs \<and> length xs = order s + 1 \<longrightarrow>
           map fst outs = replicate (order s) False @ [True, False])"
proof -
  let ?outs = "outputs (reset s) ins"
  have r: "run (reset s) ins = Inr (steps (reset s) ins, ?outs)"
    using assms by (simp add: run_ok)
  have nth: "fst (?outs ! k) = (order s \<le> k \<and> fst (ins ! (k - order s)))
         \<and> (order s \<le> k \<longrightarrow>
              snd (?outs ! k)
                = horner_fixed s (wrapS (DW s) (snd (ins ! (k - order s)) - x0 s)) (order s))"
    if "k < length ins" for k
    using that by (simp add: outputs_nth valid_out_nth y_out_nth)
  have cyc: "fst (?outs ! (c - 1)) = (order s + 1 \<le> c \<and> fst (ins ! (c - (order s + 1))))
         \<and> (order s + 1 \<le> c \<longrightarrow>
              snd (?outs ! (c - 1))
                = horner_fixed s (wrapS (DW s) (snd (ins ! (c - (order s + 1))) - x0 s))
                    (order s))"
    if c: "1 \<le> c \<and> c \<le> length ins" for c
  proof -
    have k: "c - 1 < length ins" using c by linarith
    have e: "c - 1 - order s = c - (order s + 1)" by simp
    have l: "(order s \<le> c - 1) = (order s + 1 \<le> c)" using c by linarith
    show ?thesis using nth [OF k] unfolding e l .
  qed
  have one: "map fst ?outs = replicate (order s) False @ [True, False]"
    if ins: "ins = (True, x) # map (Pair False) xs" and xs: "length xs = order s + 1" for x xs
  proof (rule nth_equalityI)
    show "length (map fst ?outs) = length (replicate (order s) False @ [True, False])"
      using ins xs by simp
  next
    fix k assume "k < length (map fst ?outs)"
    then have k: "k < length ins" by simp
    then have k': "k < order s + 2" using ins xs by simp
    have v: "fst (?outs ! k) = (order s \<le> k \<and> fst (ins ! (k - order s)))"
      using nth [OF k] by simp
    consider "k < order s" | "k = order s" | "k = order s + 1" using k' by linarith
    then have "fst (?outs ! k) = (replicate (order s) False @ [True, False]) ! k"
    proof cases
      case 1
      then show ?thesis using v by (simp add: nth_append)
    next
      case 2
      then show ?thesis using v ins by (simp add: nth_append)
    next
      case 3
      then show ?thesis using v ins xs by (simp add: nth_append)
    qed
    then show "map fst ?outs ! k = (replicate (order s) False @ [True, False]) ! k"
      using k by simp
  qed
  show ?thesis
    using r cyc one by (intro exI [of _ "steps (reset s) ins"] exI [of _ ?outs]) simp
qed

text \<open>
  The quadratic evaluator, reset with three valid entries in flight, then one valid
  input \<open>3.0\<close> and three invalid ones.
\<close>

theorem C3_latency_witness:
  "params_ok \<lparr> coeffs = [0, 0, 65536], order = 2, x0 = 0, DW = 32, FB = 16, latency = 3,
               dx_r = [7, 8, 9], acc_r = [1, 2, 3], vld_r = [True, True, True] \<rparr>
   \<and> (\<exists>s' outs.
         run (reset \<lparr> coeffs = [0, 0, 65536], order = 2, x0 = 0, DW = 32, FB = 16, latency = 3,
                      dx_r = [7, 8, 9], acc_r = [1, 2, 3], vld_r = [True, True, True] \<rparr>)
             [(True, 196608), (False, 0), (False, 0), (False, 0)] = Inr (s', outs)
       \<and> map fst outs = [False, False, True, False]
       \<and> snd (outs ! 2) = 589824)"
proof -
  let ?w = "\<lparr> coeffs = [0, 0, 65536], order = 2, x0 = 0, DW = 32, FB = 16, latency = 3,
               dx_r = [7, 8, 9], acc_r = [1, 2, 3], vld_r = [True, True, True] \<rparr>"
  let ?ins = "[(True, 196608), (False, 0), (False, 0), (False, 0)] :: (bool \<times> int) list"
  have p: "params_ok ?w" by (simp add: params_ok_def)
  have h: "horner_fixed ?w (wrapS 32 (196608 - 0)) 2 = 589824"
    by (simp add: numeral_2_eq_2 wrapS_def mulT_def)
  from C3_latency [OF p, of ?ins]
  obtain s' outs where r: "run (reset ?w) ?ins = Inr (s', outs)"
    and k: "\<forall>c. 1 \<le> c \<and> c \<le> length ?ins \<longrightarrow>
           fst (outs ! (c - 1)) = (order ?w + 1 \<le> c \<and> fst (?ins ! (c - (order ?w + 1))))
         \<and> (order ?w + 1 \<le> c \<longrightarrow>
              snd (outs ! (c - 1))
                = horner_fixed ?w (wrapS (DW ?w) (snd (?ins ! (c - (order ?w + 1))) - x0 ?w))
                    (order ?w))"
    and o: "\<forall>x xs. ?ins = (True, x) # map (Pair False) xs \<and> length xs = order ?w + 1 \<longrightarrow>
           map fst outs = replicate (order ?w) False @ [True, False]"
    by blast
  have a: "map fst outs = [False, False, True, False]"
    using o [rule_format, of 196608 "[0, 0, 0]"] by (simp add: numeral_2_eq_2)
  have b: "snd (outs ! 2) = 589824"
    using k [rule_format, of 3] h by simp
  show ?thesis
    by (intro conjI exI [of _ s'] exI [of _ outs]) (rule p r a b)+
qed

section \<open>The square of three\<close>

text \<open>
  Claim C4. The evaluator constructed with order 2, \<open>x0 = 0\<close>, coefficients
  \<open>c0 = 0\<close>, \<open>c1 = 0\<close>, \<open>c2 = 65536\<close> (followed by any further, unused entries), data width
  32 and 16 fractional bits, given the valid input 196608 in its first call after
  construction, returns an invalid output from the first and the second call and the
  valid output 589824, exactly, from the third call, whatever the second and the third
  input are.
\<close>

theorem C4_square_of_three:
  "\<exists>s0 s' outs. init ([0, 0, 65536] @ rest) 2 0 32 16 = Inr s0
     \<and> run s0 [(True, 196608), vx1, vx2] = Inr (s', outs)
     \<and> length outs = 3
     \<and> \<not> fst (outs ! 0) \<and> \<not> fst (outs ! 1)
     \<and> outs ! 2 = (True, 589824)"
proof -
  let ?c = "\<lparr> coeffs = [0, 0, 65536] @ rest, order = 2, x0 = 0, DW = 32, FB = 16,
      latency = 2 + 1, dx_r = [], acc_r = [], vld_r = [] \<rparr>"
  let ?ins = "[(True, 196608), vx1, vx2]"
  let ?outs = "outputs (reset ?c) ?ins"
  have p: "params_ok ?c" by (simp add: params_ok_def)
  have i: "init ([0, 0, 65536] @ rest) 2 0 32 16 = Inr (reset ?c)"
    by (rule init_reset)
  have r: "run (reset ?c) ?ins = Inr (steps (reset ?c) ?ins, ?outs)"
    by (rule run_ok) (simp_all only: reset_params_ok reset_regs_ok p)
  have h: "horner_fixed ?c (wrapS 32 (196608 - 0)) 2 = 589824"
    by (simp add: numeral_2_eq_2 wrapS_def mulT_def)
  have v0: "\<not> fst (?outs ! 0)"
    using valid_out_nth [of 0 ?ins ?c] by (simp add: outputs_nth)
  have v1: "\<not> fst (?outs ! 1)"
    using valid_out_nth [of 1 ?ins ?c] by (simp add: outputs_nth)
  have v2: "fst (?outs ! 2)"
    using valid_out_nth [of 2 ?ins ?c] by (simp add: outputs_nth)
  have y2: "snd (?outs ! 2) = 589824"
    using y_out_nth [of 2 ?ins ?c] h by (simp add: outputs_nth)
  have o2: "?outs ! 2 = (True, 589824)"
    using v2 y2 by (simp add: prod_eq_iff)
  have l: "length ?outs = 3" by simp
  show ?thesis
    by (intro exI [of _ "reset ?c"] exI [of _ "steps (reset ?c) ?ins"] exI [of _ ?outs] conjI)
       (rule i r l v0 v1 o2)+
qed

section \<open>Reset\<close>

text \<open>
  Claim C7. After \<^verbatim>\<open>reset\<close> in any state of an evaluator that meets the construction
  contract, whatever its registers held, every valid flag is false, and every one of
  the next \<open>order\<close> calls of \<^verbatim>\<open>clock\<close>, with any arguments, returns with
  \<open>valid_out = False\<close>.
\<close>

theorem C7_reset_discards_validity:
  assumes "params_ok s" and "length ins \<le> order s"
  shows "(\<forall>b \<in> set (vld_r (reset s)). \<not> b)
     \<and> (\<exists>s' outs. run (reset s) ins = Inr (s', outs) \<and> length outs = length ins
           \<and> (\<forall>out \<in> set outs. \<not> fst out))"
proof -
  let ?outs = "outputs (reset s) ins"
  have r: "run (reset s) ins = Inr (steps (reset s) ins, ?outs)"
    using assms(1) by (simp add: run_ok)
  have "\<not> fst (?outs ! k)" if "k < length ins" for k
    using that assms(2) by (simp add: outputs_nth valid_out_nth)
  then have "\<forall>k. k < length ?outs \<longrightarrow> \<not> fst (?outs ! k)"
    by simp
  then have "\<forall>out \<in> set ?outs. \<not> fst out"
    by (simp only: all_set_conv_all_nth)
  moreover have "\<forall>b \<in> set (vld_r (reset s)). \<not> b"
    by (simp add: reset_def)
  ultimately show ?thesis using r by simp
qed

theorem C7_reset_discards_validity_witness:
  "params_ok \<lparr> coeffs = [0, 0, 65536], order = 2, x0 = 0, DW = 32, FB = 16, latency = 3,
               dx_r = [7, 8, 9], acc_r = [1, 2, 3], vld_r = [True, True, True] \<rparr>
   \<and> length [(True, 5), (True, 6 :: int)] \<le>
       order \<lparr> coeffs = [0, 0, 65536], order = 2, x0 = 0, DW = 32, FB = 16, latency = 3,
               dx_r = [7, 8, 9], acc_r = [1, 2, 3], vld_r = [True, True, True] \<rparr>
   \<and> (\<exists>s' outs.
         run (reset \<lparr> coeffs = [0, 0, 65536], order = 2, x0 = 0, DW = 32, FB = 16, latency = 3,
                      dx_r = [7, 8, 9], acc_r = [1, 2, 3], vld_r = [True, True, True] \<rparr>)
             [(True, 5), (True, 6)] = Inr (s', outs)
       \<and> length outs = length [(True, 5), (True, 6 :: int)]
       \<and> (\<forall>out \<in> set outs. \<not> fst out))"
proof -
  let ?w = "\<lparr> coeffs = [0, 0, 65536], order = 2, x0 = 0, DW = 32, FB = 16, latency = 3,
               dx_r = [7, 8, 9], acc_r = [1, 2, 3], vld_r = [True, True, True] \<rparr>"
  have p: "params_ok ?w" by (simp add: params_ok_def)
  have l: "length [(True, 5), (True, 6 :: int)] \<le> order ?w" by simp
  from C7_reset_discards_validity [OF p l]
  have "\<exists>s' outs. run (reset ?w) [(True, 5), (True, 6)] = Inr (s', outs)
       \<and> length outs = length [(True, 5), (True, 6 :: int)]
       \<and> (\<forall>out \<in> set outs. \<not> fst out)"
    by (rule conjunct2)
  with p l show ?thesis by (intro conjI)
qed

section \<open>The valid flags do not depend on the data\<close>

text \<open>
  Claim C9. Two evaluators of the same order, each meeting the construction contract
  and each run from its reset state, that receive the same sequence of \<open>valid_in\<close>
  values return the same sequence of \<open>valid_out\<close> values, whatever their inputs
  \<open>x_in\<close>, coefficients, expansion points, data widths and fractional bits are.
\<close>

theorem C9_valid_out_depends_on_valid_in_only:
  assumes "params_ok s1" and "params_ok s2" and "order s1 = order s2"
    and "map fst ins1 = map fst ins2"
  shows "\<exists>s1' outs1 s2' outs2.
           run (reset s1) ins1 = Inr (s1', outs1) \<and> run (reset s2) ins2 = Inr (s2', outs2)
         \<and> map fst outs1 = map fst outs2"
proof -
  let ?o1 = "outputs (reset s1) ins1" and ?o2 = "outputs (reset s2) ins2"
  have r1: "run (reset s1) ins1 = Inr (steps (reset s1) ins1, ?o1)"
    using assms(1) by (simp add: run_ok)
  have r2: "run (reset s2) ins2 = Inr (steps (reset s2) ins2, ?o2)"
    using assms(2) by (simp add: run_ok)
  have len: "length ins1 = length ins2"
    using assms(4) by (rule map_eq_imp_length_eq)
  have eq: "map fst ?o1 = map fst ?o2"
  proof (rule nth_equalityI)
    show "length (map fst ?o1) = length (map fst ?o2)" using len by simp
  next
    fix k assume "k < length (map fst ?o1)"
    then have k1: "k < length ins1" and k2: "k < length ins2" using len by simp_all
    have "fst (ins1 ! (k - order s1)) = map fst ins1 ! (k - order s1)"
      using k1 by simp
    also have "\<dots> = map fst ins2 ! (k - order s2)"
      using assms(3,4) by simp
    also have "\<dots> = fst (ins2 ! (k - order s2))"
      using k2 by simp
    finally show "map fst ?o1 ! k = map fst ?o2 ! k"
      using k1 k2 assms(3) by (simp add: outputs_nth valid_out_nth)
  qed
  show ?thesis
    by (intro exI [of _ "steps (reset s1) ins1"] exI [of _ ?o1]
          exI [of _ "steps (reset s2) ins2"] exI [of _ ?o2] conjI) (rule r1 r2 eq)+
qed

theorem C9_valid_out_depends_on_valid_in_only_witness:
  "params_ok \<lparr> coeffs = [0, 0, 65536], order = 2, x0 = 0, DW = 32, FB = 16, latency = 3,
               dx_r = [], acc_r = [], vld_r = [] \<rparr>
   \<and> params_ok \<lparr> coeffs = [1, 2, 3, 4], order = 2, x0 = 4, DW = 8, FB = 2, latency = 3,
               dx_r = [], acc_r = [], vld_r = [] \<rparr>
   \<and> map fst [(True, 196608), (False, 0), (True, 1 :: int)]
       = map fst [(True, - 5), (False, 77), (True, 3 :: int)]
   \<and> (\<exists>s1' outs1 s2' outs2.
         run (reset \<lparr> coeffs = [0, 0, 65536], order = 2, x0 = 0, DW = 32, FB = 16, latency = 3,
                      dx_r = [], acc_r = [], vld_r = [] \<rparr>)
             [(True, 196608), (False, 0), (True, 1)] = Inr (s1', outs1)
       \<and> run (reset \<lparr> coeffs = [1, 2, 3, 4], order = 2, x0 = 4, DW = 8, FB = 2, latency = 3,
                      dx_r = [], acc_r = [], vld_r = [] \<rparr>)
             [(True, - 5), (False, 77), (True, 3)] = Inr (s2', outs2)
       \<and> map fst outs1 = map fst outs2)"
proof -
  let ?a = "\<lparr> coeffs = [0, 0, 65536], order = 2, x0 = 0, DW = 32, FB = 16, latency = 3,
               dx_r = [], acc_r = [], vld_r = [] \<rparr>"
  let ?b = "\<lparr> coeffs = [1, 2, 3, 4], order = 2, x0 = 4, DW = 8, FB = 2, latency = 3,
               dx_r = [], acc_r = [], vld_r = [] \<rparr>"
  have p: "params_ok ?a" and q: "params_ok ?b" by (simp_all add: params_ok_def)
  have n: "order ?a = order ?b" by simp
  have m: "map fst [(True, 196608), (False, 0), (True, 1 :: int)]
       = map fst [(True, - 5), (False, 77), (True, 3 :: int)]" by simp
  from C9_valid_out_depends_on_valid_in_only [OF p q n m] p q m
  show ?thesis by (intro conjI)
qed

section \<open>The registers stay in the signed range\<close>

lemma zero_in_range: "in_range bits 0"
  by (simp add: in_range_def)

lemma reset_in_range: "regs_in_range (reset s)"
  by (simp add: regs_in_range_def reset_def zero_in_range)

lemma step_in_range:
  assumes p: "params_ok s" and g: "regs_ok s"
    and c: "in_range (DW s) (coeffs s ! order s)" and r: "regs_in_range s"
  shows "regs_in_range (step s v x)"
proof -
  have dw: "0 < DW s" using p by (simp add: params_ok_def)
  have "in_range (DW s) (dx_r (step s v x) ! i)" if "i \<le> order s" for i
  proof (cases "i = 0")
    case True
    then show ?thesis by (simp add: step_nth wrapS_in_range [OF dw])
  next
    case False
    then have "dx_r s ! (i - 1) \<in> set (dx_r s)"
      using that g by (intro nth_mem) (simp add: regs_ok_def)
    then show ?thesis using False that r by (simp add: step_nth regs_in_range_def)
  qed
  then have d: "\<forall>i. i < length (dx_r (step s v x)) \<longrightarrow> in_range (DW s) (dx_r (step s v x) ! i)"
    by (simp add: step_def)
  have "in_range (DW s) (acc_r (step s v x) ! i)" if "i \<le> order s" for i
    using that c by (simp add: step_nth next_acc_def wrapS_in_range [OF dw])
  then have a: "\<forall>i. i < length (acc_r (step s v x)) \<longrightarrow> in_range (DW s) (acc_r (step s v x) ! i)"
    by (simp add: step_def)
  show ?thesis
    using d a by (simp only: regs_in_range_def all_set_conv_all_nth step_fields)
qed

lemma steps_in_range:
  "params_ok s \<Longrightarrow> regs_ok s \<Longrightarrow> in_range (DW s) (coeffs s ! order s) \<Longrightarrow> regs_in_range s \<Longrightarrow>
     regs_in_range (steps s ins)"
  by (induction ins arbitrary: s) (simp_all add: step_in_range)

lemma output_in_range:
  "regs_ok s \<Longrightarrow> regs_in_range s \<Longrightarrow> in_range (DW s) (snd (clock_output s))"
  by (simp add: clock_output_def regs_in_range_def regs_ok_def)

lemma outputs_in_range:
  "params_ok s \<Longrightarrow> regs_ok s \<Longrightarrow> in_range (DW s) (coeffs s ! order s) \<Longrightarrow> regs_in_range s \<Longrightarrow>
     \<forall>out \<in> set (outputs s ins). in_range (DW s) (snd out)"
proof (induction ins arbitrary: s)
  case Nil
  then show ?case by simp
next
  case (Cons vx ins)
  let ?t = "step s (fst vx) (snd vx)"
  have t: "regs_in_range ?t" using Cons.prems by (simp add: step_in_range)
  have "in_range (DW s) (snd (clock_output ?t))"
    using output_in_range [of ?t] t by simp
  moreover have "\<forall>out \<in> set (outputs ?t ins). in_range (DW s) (snd out)"
    using Cons.IH [of ?t] Cons.prems t by simp
  ultimately show ?case by simp
qed

text \<open>
  Claim C10. If every coefficient lies in the signed range of \<open>DW\<close> bits, then for
  an evaluator that meets the construction contract the registers \<open>dx\<close> and \<open>acc\<close> of
  every stage lie in that range after \<^verbatim>\<open>reset\<close> and after every sequence of
  \<^verbatim>\<open>clock\<close> calls with any arguments, and so does every \<open>y_out\<close> returned.
\<close>

theorem C10_registers_in_range:
  assumes "params_ok s" and "\<forall>c \<in> set (coeffs s). in_range (DW s) c"
  shows "regs_in_range (reset s)
     \<and> (\<exists>s' outs. run (reset s) ins = Inr (s', outs) \<and> length outs = length ins
           \<and> regs_in_range s' \<and> (\<forall>out \<in> set outs. in_range (DW s) (snd out)))"
proof -
  have c: "in_range (DW s) (coeffs s ! order s)"
    using assms by (simp add: params_ok_def)
  have r: "run (reset s) ins = Inr (steps (reset s) ins, outputs (reset s) ins)"
    using assms(1) by (simp add: run_ok)
  have "regs_in_range (steps (reset s) ins)"
    using assms(1) c by (simp add: steps_in_range reset_in_range)
  moreover have "\<forall>out \<in> set (outputs (reset s) ins). in_range (DW s) (snd out)"
    using outputs_in_range [of "reset s" ins] assms(1) c by (simp add: reset_in_range)
  ultimately show ?thesis using r by (simp add: reset_in_range)
qed

theorem C10_registers_in_range_witness:
  "params_ok \<lparr> coeffs = [0, 0, 65536], order = 2, x0 = 0, DW = 32, FB = 16, latency = 3,
               dx_r = [], acc_r = [], vld_r = [] \<rparr>
   \<and> in_range 32 0 \<and> in_range 32 65536
   \<and> (\<exists>s' outs.
         run (reset \<lparr> coeffs = [0, 0, 65536], order = 2, x0 = 0, DW = 32, FB = 16, latency = 3,
                      dx_r = [], acc_r = [], vld_r = [] \<rparr>)
             [(True, 2147483653), (True, - 2147483648), (False, 98765)] = Inr (s', outs)
       \<and> regs_in_range s' \<and> (\<forall>out \<in> set outs. in_range 32 (snd out)))"
proof -
  let ?w = "\<lparr> coeffs = [0, 0, 65536], order = 2, x0 = 0, DW = 32, FB = 16, latency = 3,
               dx_r = [], acc_r = [], vld_r = [] \<rparr>"
  have p: "params_ok ?w" by (simp add: params_ok_def)
  have c: "\<forall>c \<in> set (coeffs ?w). in_range (DW ?w) c" by (simp add: in_range_def)
  from C10_registers_in_range [OF p c, of "[(True, 2147483653), (True, - 2147483648), (False, 98765)]"]
  have "\<exists>s' outs.
         run (reset ?w) [(True, 2147483653), (True, - 2147483648), (False, 98765)] = Inr (s', outs)
       \<and> regs_in_range s' \<and> (\<forall>out \<in> set outs. in_range 32 (snd out))"
    by auto
  moreover have "in_range 32 0 \<and> in_range 32 65536" by (simp add: in_range_def)
  ultimately show ?thesis using p by (intro conjI) simp_all
qed

section \<open>Construction\<close>

text \<open>
  Claim C5 asks the constructor to reject a violated contract. The constructor has no
  check: it returns an evaluator for a coefficient list shorter
  than \<open>order + 1\<close>, for a data width of 0, for 0 fractional bits and for negative widths.
\<close>

theorem C5_counterexample:
  "\<not> isl (init [0, 0] 2 0 32 16)
   \<and> \<not> isl (init [0, 0, 65536] 2 0 0 16)
   \<and> \<not> isl (init [0, 0, 65536] 2 0 32 0)
   \<and> \<not> isl (init [0, 0, 65536] 2 0 (- 32) (- 16))"
  by (simp add: init_def)

text \<open>
  Claim C5, amended. Constructing an evaluator never fails: the constructor stores its
  arguments as they are, with the latency \<open>order + 1\<close>. A violation of the contract
  shows at the first call of \<^verbatim>\<open>clock\<close> at the earliest: a non-positive data width
  raises \<^verbatim>\<open>ValueError\<close> there, and with a positive data width a coefficient list
  shorter than \<open>order + 1\<close> raises \<^verbatim>\<open>IndexError\<close>. A negative number of fractional
  bits raises \<^verbatim>\<open>ValueError\<close> at the first call when the order is positive, and 0
  fractional bits are accepted: the call returns.
\<close>

theorem C5_construction_unchecked:
  "\<exists>s0. init cs n x dw fb = Inr s0
     \<and> coeffs s0 = cs \<and> order s0 = n \<and> x0 s0 = x \<and> DW s0 = dw \<and> FB s0 = fb
     \<and> latency s0 = n + 1
     \<and> (dw \<le> 0 \<longrightarrow> clock s0 v x_in = Inl ValueError)
     \<and> (0 < dw \<and> length cs \<le> n \<longrightarrow> clock s0 v x_in = Inl IndexError)
     \<and> (0 < dw \<and> n < length cs \<and> fb < 0 \<and> 0 < n \<longrightarrow> clock s0 v x_in = Inl ValueError)
     \<and> (0 < dw \<and> n < length cs \<and> fb = 0 \<longrightarrow> (\<exists>s' out. clock s0 v x_in = Inr (s', out)))"
proof -
  let ?c = "\<lparr> coeffs = cs, order = n, x0 = x, DW = dw, FB = fb,
      latency = n + 1, dx_r = [], acc_r = [], vld_r = [] \<rparr>"
  let ?s = "reset ?c"
  have i: "init cs n x dw fb = Inr ?s" by (rule init_reset)
  have a: "clock ?s v x_in = Inl ValueError" if "dw \<le> 0"
    using that
    by (auto simp add: clock_def Let_def to_unsigned_def to_signed_def shl_def bindE_def)
  have b: "clock ?s v x_in = Inl IndexError" if "0 < dw \<and> length cs \<le> n"
    using that
    by (simp add: clock_def Let_def to_unsigned_take_bit to_signed_take_bit bindE_def getitem_def)
  have "clock_stage ?s 1 nxt = Inl ValueError" if "fb < 0" for nxt
    using that
    by (simp add: clock_stage_def getitem_def fp_mul_trunc_def shr_def bindE_def reset_def
        split: prod.splits)
  then have l: "clock_loop ?s [1 ..< n + 1] nxt = Inl ValueError" if "fb < 0" "0 < n" for nxt
    using that by (simp add: upt_conv_Cons del: upt_Suc)
  have c: "clock ?s v x_in = Inl ValueError" if "0 < dw \<and> n < length cs \<and> fb < 0 \<and> 0 < n"
    using that l
    by (simp add: clock_def Let_def to_unsigned_take_bit to_signed_take_bit bindE_def
        getitem_def setitem_def del: upt_Suc)
  have d: "\<exists>s' out. clock ?s v x_in = Inr (s', out)" if "0 < dw \<and> n < length cs \<and> fb = 0"
  proof -
    have "params_ok ?s" using that by (simp add: params_ok_def)
    then show ?thesis using clock_ok [of ?s v x_in] by simp
  qed
  show ?thesis
    using i a b c d by (intro exI [of _ ?s]) simp
qed

theorem C5_construction_unchecked_witness:
  "(\<exists>s0. init [0, 0, 65536] 2 0 0 16 = Inr s0 \<and> (0::int) \<le> 0
          \<and> clock s0 True 196608 = Inl ValueError)
   \<and> (\<exists>s0. init [0, 0] 2 0 32 16 = Inr s0 \<and> (0::int) < 32 \<and> length [0, 0 :: int] \<le> 2
          \<and> clock s0 True 196608 = Inl IndexError)
   \<and> (\<exists>s0. init [0, 0, 65536] 2 0 32 (- 16) = Inr s0
          \<and> (0::int) < 32 \<and> 2 < length [0, 0, 65536 :: int] \<and> (- 16 :: int) < 0 \<and> (0::nat) < 2
          \<and> clock s0 True 196608 = Inl ValueError)
   \<and> (\<exists>s0. init [0, 0, 65536] 2 0 32 0 = Inr s0
          \<and> (0::int) < 32 \<and> 2 < length [0, 0, 65536 :: int]
          \<and> (\<exists>s' out. clock s0 True 196608 = Inr (s', out)))"
proof -
  have a: "\<exists>s0. init [0, 0, 65536] 2 0 0 16 = Inr s0 \<and> (0::int) \<le> 0
          \<and> clock s0 True 196608 = Inl ValueError"
    using C5_construction_unchecked [of "[0, 0, 65536]" 2 0 0 16 True 196608] by auto
  have b: "\<exists>s0. init [0, 0] 2 0 32 16 = Inr s0 \<and> (0::int) < 32 \<and> length [0, 0 :: int] \<le> 2
          \<and> clock s0 True 196608 = Inl IndexError"
    using C5_construction_unchecked [of "[0, 0]" 2 0 32 16 True 196608] by auto
  have c: "\<exists>s0. init [0, 0, 65536] 2 0 32 (- 16) = Inr s0
          \<and> (0::int) < 32 \<and> 2 < length [0, 0, 65536 :: int] \<and> (- 16 :: int) < 0 \<and> (0::nat) < 2
          \<and> clock s0 True 196608 = Inl ValueError"
    using C5_construction_unchecked [of "[0, 0, 65536]" 2 0 32 "- 16" True 196608] by auto
  have d: "\<exists>s0. init [0, 0, 65536] 2 0 32 0 = Inr s0
          \<and> (0::int) < 32 \<and> 2 < length [0, 0, 65536 :: int]
          \<and> (\<exists>s' out. clock s0 True 196608 = Inr (s', out))"
    using C5_construction_unchecked [of "[0, 0, 65536]" 2 0 32 0 True 196608] by auto
  show ?thesis by (intro conjI) (rule a b c d)+
qed

end
